theory Spec2Isabelle
  imports Main
begin

section \<open>JavaScript values, exceptions and callables\<close>

text \<open>
  The library \<^verbatim>\<open>fn.js\<close> exports six combinators: \<^verbatim>\<open>when\<close>, \<^verbatim>\<open>debounce\<close>,
  \<^verbatim>\<open>counts\<close>, \<^verbatim>\<open>arglock\<close>, \<^verbatim>\<open>times\<close> and \<^verbatim>\<open>rateLimit\<close>. Each takes a callback
  and returns a new function.

  Values are the JavaScript values the code can tell apart. A function value is a
  reference \<open>JFun f\<close>; what calling it does is given by an interpretation of the
  references. Numbers are the integer-valued Numbers, on which \<^verbatim>\<open>++\<close>, \<^verbatim>\<open>==\<close> and \<^verbatim>\<open><\<close> are
  exact (below \<open>2^53\<close>); the one operation of the code that leaves the integers,
  \<^verbatim>\<open>%\<close> with a zero divisor, is modelled by \<open>js_rem\<close> below.
\<close>

datatype 'f jsval =
    JUndefined
  | JNull
  | JBool bool
  | JNum int
  | JStr string
  | JObj nat
  | JFun 'f
  | JArr "'f jsval list"

text \<open>What a \<^verbatim>\<open>throw\<close> carries: the \<^verbatim>\<open>Error\<close> that \<^verbatim>\<open>arglock\<close> constructs, the
  \<^verbatim>\<open>TypeError\<close> of calling a non-function, or any value thrown by a callback.\<close>

datatype 'f jsexn =
    JsError string
  | JsTypeError
  | Thrown "'f jsval"

type_synonym 'f outcome = "'f jsexn + 'f jsval"

text \<open>A callable takes the receiver (\<^verbatim>\<open>this\<close>), the argument list and the state, and
  returns or throws, leaving a new state.\<close>

type_synonym ('f, 's) jsfun = "'f jsval \<Rightarrow> 'f jsval list \<Rightarrow> 's \<Rightarrow> 'f outcome \<times> 's"

fun typeof :: "'f jsval \<Rightarrow> string" where
  "typeof JUndefined = ''undefined''"
| "typeof JNull = ''object''"
| "typeof (JBool b) = ''boolean''"
| "typeof (JNum n) = ''number''"
| "typeof (JStr s) = ''string''"
| "typeof (JObj a) = ''object''"
| "typeof (JFun f) = ''function''"
| "typeof (JArr xs) = ''object''"

fun truthy :: "'f jsval \<Rightarrow> bool" where
  "truthy JUndefined = False"
| "truthy JNull = False"
| "truthy (JBool b) = b"
| "truthy (JNum n) = (n \<noteq> 0)"
| "truthy (JStr s) = (s \<noteq> [])"
| "truthy (JObj a) = True"
| "truthy (JFun f) = True"
| "truthy (JArr xs) = True"

fun is_callable :: "'f jsval \<Rightarrow> bool" where
  "is_callable (JFun f) = True"
| "is_callable v = False"

text \<open>\<^verbatim>\<open>a % b\<close> on integer-valued Numbers: the remainder of the truncating division,
  with the sign of the dividend; \<open>None\<close> is \<^verbatim>\<open>NaN\<close>, the result for \<^verbatim>\<open>b = 0\<close>.\<close>

definition js_rem :: "int \<Rightarrow> int \<Rightarrow> int option" where
  "js_rem a b = (if b = 0 then None else Some (sgn a * (\<bar>a\<bar> mod \<bar>b\<bar>)))"

text \<open>\<^verbatim>\<open>fn.apply(this, args)\<close> on a value: a function reference runs its
  interpretation, anything else throws a \<^verbatim>\<open>TypeError\<close>.\<close>

definition js_apply :: "('f \<Rightarrow> ('f, 's) jsfun) \<Rightarrow> 'f jsval \<Rightarrow> ('f, 's) jsfun" where
  "js_apply impl fn =
     (case fn of JFun f \<Rightarrow> impl f | _ \<Rightarrow> (\<lambda>this arguments s. (Inl JsTypeError, s)))"

section \<open>\<^verbatim>\<open>when(check, fn, args ...)\<close>\<close>

text \<open>
  \<^verbatim>\<open>
  function when(check, fn){
    var args = [].slice.call(arguments, 2);
    return function(){
      if (check()) return fn.apply(this, args.concat([].slice.call(arguments)));
    };
  }
  \<close>
  \<open>check\<close> and \<open>fn\<close> are the callables passed in. \<^verbatim>\<open>check()\<close> is a plain call: no
  receiver, no arguments. An exception of \<open>check\<close> or \<open>fn\<close> leaves the returned
  function as it is; falling off the end returns \<^verbatim>\<open>undefined\<close>.
\<close>

definition "when" :: "('f, 's) jsfun \<Rightarrow> ('f, 's) jsfun \<Rightarrow> 'f jsval list \<Rightarrow> ('f, 's) jsfun" where
  "when check fn args = (\<lambda>this arguments s.
     case check JUndefined [] s of
       (Inl e, s') \<Rightarrow> (Inl e, s')
     | (Inr c, s') \<Rightarrow>
         if truthy c then fn this (args @ arguments) s' else (Inr JUndefined, s'))"

section \<open>\<^verbatim>\<open>times(count, fn, args ...)\<close>\<close>

text \<open>
  \<^verbatim>\<open>
  function times(count, fn){
    var args = [].slice.call(arguments, 2),
        multiplied = function(){
          var results = [];
          for (var i = 0; i < count; i++) {
            results.push(fn.apply(this, args));
          }
          return results;
        };
    return multiplied;
  }
  \<close>
  The \<^verbatim>\<open>for\<close> loop is the recursion \<open>multiplied_loop\<close> on \<open>i\<close> and \<open>results\<close>; an
  exception of \<open>fn\<close> ends it. The arguments of the call to \<open>multiplied\<close> are not read.
\<close>

function multiplied_loop ::
  "int \<Rightarrow> ('f, 's) jsfun \<Rightarrow> 'f jsval list \<Rightarrow> 'f jsval \<Rightarrow> int \<Rightarrow> 'f jsval list \<Rightarrow> 's
     \<Rightarrow> 'f outcome \<times> 's" where
  "multiplied_loop count fn args this i results s =
     (if i < count then
        (case fn this args s of
           (Inl e, s') \<Rightarrow> (Inl e, s')
         | (Inr v, s') \<Rightarrow> multiplied_loop count fn args this (i + 1) (results @ [v]) s')
      else (Inr (JArr results), s))"
  by pat_completeness auto
termination
  by (relation "measure (\<lambda>(count, fn, args, this, i, results, s). nat (count - i))") auto

declare multiplied_loop.simps [simp del]

definition multiplied :: "int \<Rightarrow> ('f, 's) jsfun \<Rightarrow> 'f jsval list \<Rightarrow> ('f, 's) jsfun" where
  "multiplied count fn args = (\<lambda>this arguments s. multiplied_loop count fn args this 0 [] s)"

definition times_fn :: "int \<Rightarrow> ('f, 's) jsfun \<Rightarrow> 'f jsval list \<Rightarrow> ('f, 's) jsfun" where
  "times_fn count fn args = multiplied count fn args"

section \<open>\<^verbatim>\<open>arglock(fn, args ...)\<close>\<close>

text \<open>
  \<^verbatim>\<open>
  function arglock(){
    var slice = [].slice,
        args = slice.apply(arguments);
    if (args.length === 0 || typeof(args[0]) != 'function')
      throw new Error("first argument must be a function");
    var fn = args.shift();
    return function(){
      return fn.apply(this, args.concat(slice.apply(arguments)));
    };
  }
  \<close>
  \<open>arglock\<close> looks at its first argument as a value, so it takes the whole argument
  list as values, and the interpretation \<open>impl\<close> of function references. The factory
  either throws (\<open>Inl\<close>) or returns the wrapped function (\<open>Inr\<close>).
\<close>

definition arglock ::
  "('f \<Rightarrow> ('f, 's) jsfun) \<Rightarrow> 'f jsval list \<Rightarrow> 'f jsexn + ('f, 's) jsfun" where
  "arglock impl args =
     (if length args = 0 \<or> typeof (args ! 0) \<noteq> ''function''
      then Inl (JsError ''first argument must be a function'')
      else (let fn = hd args; args' = tl args
            in Inr (\<lambda>this arguments s. js_apply impl fn this (args' @ arguments) s)))"

section \<open>\<^verbatim>\<open>debounce(every, fn, args ...)\<close> and \<^verbatim>\<open>counts(times, fn, args ...)\<close>\<close>

text \<open>
  Both factories declare a variable \<^verbatim>\<open>count = 0\<close> that only their own closure
  (\<^verbatim>\<open>debouncer\<close>, \<^verbatim>\<open>counter\<close>) reads and writes. The state of the returned function
  is therefore the state \<open>outer\<close> of the caller extended by \<open>count\<close>; the callback
  \<open>fn\<close> comes from outside and runs on the \<open>outer\<close> part (\<open>enclosed\<close>).
  The factory returns the wrapped function and the extended state.
  \<^verbatim>\<open>
  function debounce(every, fn){
    var args = [].slice.call(arguments, 2),
        count = 0,
        debouncer = function(){
          count ++;
          return count % every === 0;
        };
    return when.apply(this, [debouncer, fn].concat(args));
  }

  function counts(times, fn){
    var args = [].slice.call(arguments, 2),
      count = 0,
      counter = function(){
        if (count == times) return true;
        count ++;
        return false;
      };
    return when.apply(this, [counter, fn].concat(args));
  }
  \<close>
\<close>

record 's counting =
  count :: int
  outer :: 's

definition enclosed :: "('f, 's) jsfun \<Rightarrow> ('f, 's counting) jsfun" where
  "enclosed fn = (\<lambda>this arguments \<sigma>.
     let (r, s') = fn this arguments (outer \<sigma>) in (r, \<sigma>\<lparr>outer := s'\<rparr>))"

definition debouncer :: "int \<Rightarrow> ('f, 's counting) jsfun" where
  "debouncer every = (\<lambda>this arguments \<sigma>.
     let \<sigma>' = \<sigma>\<lparr>count := count \<sigma> + 1\<rparr>
     in (Inr (JBool (js_rem (count \<sigma>') every = Some 0)), \<sigma>'))"

definition debounce ::
  "int \<Rightarrow> ('f, 's) jsfun \<Rightarrow> 'f jsval list \<Rightarrow> 's \<Rightarrow> ('f, 's counting) jsfun \<times> 's counting" where
  "debounce every fn args s =
     (when (debouncer every) (enclosed fn) args, \<lparr>count = 0, outer = s\<rparr>)"

definition counter :: "int \<Rightarrow> ('f, 's counting) jsfun" where
  "counter times' = (\<lambda>this arguments \<sigma>.
     if count \<sigma> = times' then (Inr (JBool True), \<sigma>)
     else (Inr (JBool False), \<sigma>\<lparr>count := count \<sigma> + 1\<rparr>))"

definition counts ::
  "int \<Rightarrow> ('f, 's) jsfun \<Rightarrow> 'f jsval list \<Rightarrow> 's \<Rightarrow> ('f, 's counting) jsfun \<times> 's counting" where
  "counts times' fn args s =
     (when (counter times') (enclosed fn) args, \<lparr>count = 0, outer = s\<rparr>)"

section \<open>\<^verbatim>\<open>rateLimit(wait, fn)\<close>\<close>

text \<open>
  \<^verbatim>\<open>
  function rateLimit(wait, fn) {
    var clear,
        limited = function() {
          if (clear) clear();
          var args = arguments,
          timeoutId = setTimeout(function(){
            fn.apply(this, args);
          }, wait);
          clear = function() {
            clearTimeout(timeoutId);
          };
          return clear;
        };
    return limited;
  }
  \<close>
  The host's timer facility is a table \<open>timeouts\<close> from timeout ids to scheduled
  callbacks, a source \<open>next_id\<close> of fresh ids, and the history \<open>fired\<close> of the ids
  whose callback has run. The table holds the callbacks this instance schedules. The
  callback passed to \<^verbatim>\<open>setTimeout\<close> is the closure over \<open>fn\<close> and \<open>args\<close>, kept as the
  record \<open>timeout\<close>. The closure \<^verbatim>\<open>clear\<close> is determined by the \<open>timeoutId\<close> it
  closes over: the variable \<open>clear\<close> is \<open>None\<close> for \<^verbatim>\<open>undefined\<close> and \<open>Some timeoutId\<close>
  for that closure, and the handle that \<open>limited\<close> returns is the same \<open>timeoutId\<close>;
  calling a handle is \<open>clearTimeout\<close> on it. Elapsed time is not modelled: the host may
  run any scheduled callback at any moment (\<open>fire\<close>), which can only add behaviours.
  An exception of \<open>fn\<close> inside the callback goes to the host and the instance carries on.
\<close>

record ('f, 's) timeout =
  target :: "('f, 's) jsfun"
  captured :: "'f jsval list"
  delay :: int

record ('f, 's) limiter =
  clear :: "nat option"
  timeouts :: "nat \<rightharpoonup> ('f, 's) timeout"
  next_id :: nat
  fired :: "nat list"
  world :: 's

definition setTimeout ::
  "('f, 's) timeout \<Rightarrow> ('f, 's) limiter \<Rightarrow> nat \<times> ('f, 's) limiter" where
  "setTimeout cb \<sigma> =
     (next_id \<sigma>, \<sigma>\<lparr>timeouts := (timeouts \<sigma>)(next_id \<sigma> \<mapsto> cb), next_id := Suc (next_id \<sigma>)\<rparr>)"

definition clearTimeout :: "nat \<Rightarrow> ('f, 's) limiter \<Rightarrow> ('f, 's) limiter" where
  "clearTimeout timeoutId \<sigma> = \<sigma>\<lparr>timeouts := (timeouts \<sigma>)(timeoutId := None)\<rparr>"

text \<open>The host runs the callback of a scheduled timeout, with a receiver of its own
  choice, and forgets the timeout; an id that is not scheduled does not fire.\<close>

definition fire :: "'f jsval \<Rightarrow> nat \<Rightarrow> ('f, 's) limiter \<Rightarrow> ('f, 's) limiter" where
  "fire receiver timeoutId \<sigma> =
     (case timeouts \<sigma> timeoutId of
        None \<Rightarrow> \<sigma>
      | Some cb \<Rightarrow>
          let \<sigma>1 = \<sigma>\<lparr>timeouts := (timeouts \<sigma>)(timeoutId := None),
                      fired := fired \<sigma> @ [timeoutId]\<rparr>;
              (r, s') = target cb receiver (captured cb) (world \<sigma>1)
          in \<sigma>1\<lparr>world := s'\<rparr>)"

definition limited ::
  "int \<Rightarrow> ('f, 's) jsfun \<Rightarrow> 'f jsval \<Rightarrow> 'f jsval list \<Rightarrow> ('f, 's) limiter
     \<Rightarrow> nat \<times> ('f, 's) limiter" where
  "limited wait fn this arguments \<sigma> =
     (let \<sigma>1 = (case clear \<sigma> of Some timeoutId \<Rightarrow> clearTimeout timeoutId \<sigma> | None \<Rightarrow> \<sigma>);
          (timeoutId, \<sigma>2) = setTimeout \<lparr>target = fn, captured = arguments, delay = wait\<rparr> \<sigma>1
      in (timeoutId, \<sigma>2\<lparr>clear := Some timeoutId\<rparr>))"

definition rateLimit ::
  "int \<Rightarrow> ('f, 's) jsfun \<Rightarrow> 's
     \<Rightarrow> ('f jsval \<Rightarrow> 'f jsval list \<Rightarrow> ('f, 's) limiter \<Rightarrow> nat \<times> ('f, 's) limiter)
        \<times> ('f, 's) limiter" where
  "rateLimit wait fn s =
     (limited wait fn,
      \<lparr>clear = None, timeouts = Map.empty, next_id = 0, fired = [], world = s\<rparr>)"

text \<open>What can happen to an instance: a call of the wrapped function, a call of a
  cancellation handle, the host firing a timeout.\<close>

datatype 'f action =
    Call "'f jsval" "'f jsval list"
  | Cancel nat
  | Fire nat

fun step ::
  "int \<Rightarrow> ('f, 's) jsfun \<Rightarrow> 'f jsval \<Rightarrow> 'f action \<Rightarrow> ('f, 's) limiter \<Rightarrow> ('f, 's) limiter" where
  "step wait fn receiver (Call this arguments) \<sigma> = snd (limited wait fn this arguments \<sigma>)"
| "step wait fn receiver (Cancel timeoutId) \<sigma> = clearTimeout timeoutId \<sigma>"
| "step wait fn receiver (Fire timeoutId) \<sigma> = fire receiver timeoutId \<sigma>"

fun steps ::
  "int \<Rightarrow> ('f, 's) jsfun \<Rightarrow> 'f jsval \<Rightarrow> 'f action list \<Rightarrow> ('f, 's) limiter
     \<Rightarrow> ('f, 's) limiter" where
  "steps wait fn receiver [] \<sigma> = \<sigma>"
| "steps wait fn receiver (a # as) \<sigma> = steps wait fn receiver as (step wait fn receiver a \<sigma>)"

text \<open>The invariant of an instance: a scheduled timeout is the one \<open>clear\<close> closes
  over, and that id has been handed out. A \<open>stale\<close> id has been handed out and is no
  longer scheduled.\<close>

definition pending_inv :: "('f, 's) limiter \<Rightarrow> bool" where
  "pending_inv \<sigma> \<longleftrightarrow>
     (\<forall>i cb. timeouts \<sigma> i = Some cb \<longrightarrow> clear \<sigma> = Some i) \<and>
     (\<forall>i. clear \<sigma> = Some i \<longrightarrow> i < next_id \<sigma>)"

definition stale :: "nat \<Rightarrow> ('f, 's) limiter \<Rightarrow> bool" where
  "stale i \<sigma> \<longleftrightarrow> i < next_id \<sigma> \<and> timeouts \<sigma> i = None"

section \<open>Observing calls\<close>

text \<open>
  To say how often and with what a callback is invoked, the callbacks given to the
  combinators keep a trace: \<open>traced t\<close> runs an arbitrary callable \<open>t\<close> on the \<open>user\<close>
  part of the state and appends the receiver, the arguments and the outcome of this
  invocation to \<open>trace\<close>; \<open>traced_check p\<close> does so for a predicate.
  \<open>run w cs\<close> calls the function \<open>w\<close> once for each (receiver, arguments) of \<open>cs\<close>,
  in order, whatever each call returns or throws, and collects the outcomes.
\<close>

datatype 'f event =
    Checked "'f outcome"
  | Invoked "'f jsval" "'f jsval list" "'f outcome"

record ('f, 'u) host =
  trace :: "'f event list"
  user :: 'u

definition traced :: "('f, 'u) jsfun \<Rightarrow> ('f, ('f, 'u) host) jsfun" where
  "traced t = (\<lambda>this arguments h.
     let (r, u') = t this arguments (user h)
     in (r, \<lparr>trace = trace h @ [Invoked this arguments r], user = u'\<rparr>))"

definition traced_check :: "('f, 'u) jsfun \<Rightarrow> ('f, ('f, 'u) host) jsfun" where
  "traced_check p = (\<lambda>this arguments h.
     let (r, u') = p this arguments (user h)
     in (r, \<lparr>trace = trace h @ [Checked r], user = u'\<rparr>))"

fun run :: "('f, 's) jsfun \<Rightarrow> ('f jsval \<times> 'f jsval list) list \<Rightarrow> 's \<Rightarrow> 'f outcome list \<times> 's" where
  "run w [] s = ([], s)"
| "run w ((this, arguments) # cs) s =
     (let (r, s') = w this arguments s; (rs, s'') = run w cs s' in (r # rs, s''))"

text \<open>
  \<open>fired_on P k boundArgs cs rs\<close> is the trace left when, of the calls \<open>cs\<close> numbered
  from \<open>k\<close>, exactly those whose number satisfies \<open>P\<close> reach the target: each such
  call \<open>(this, callArgs)\<close> with outcome \<open>r\<close> invokes the target once on \<open>this\<close> with
  \<open>boundArgs @ callArgs\<close>, and the outcome of the invocation is \<open>r\<close>.
\<close>

definition fired_on ::
  "(nat \<Rightarrow> bool) \<Rightarrow> nat \<Rightarrow> 'f jsval list \<Rightarrow> ('f jsval \<times> 'f jsval list) list \<Rightarrow> 'f outcome list
     \<Rightarrow> 'f event list" where
  "fired_on P k boundArgs cs rs =
     map (\<lambda>(i, (this, callArgs), r). Invoked this (boundArgs @ callArgs) r)
       (filter (\<lambda>(i, c, r). P i) (zip [k..<k + length cs] (zip cs rs)))"

text \<open>Two callbacks for the examples: \<open>tick\<close> returns the number of its earlier
  invocations; \<open>fussy\<close> does the same but throws on its second invocation.\<close>

definition tick :: "(nat, nat) jsfun" where
  "tick = (\<lambda>this arguments u. (Inr (JNum (int u)), Suc u))"

definition fussy :: "(nat, nat) jsfun" where
  "fussy = (\<lambda>this arguments u.
     if u = 1 then (Inl (Thrown (JStr ''boom'')), Suc u) else (Inr (JNum (int u)), Suc u))"

section \<open>Properties of \<^verbatim>\<open>when\<close>\<close>

text \<open>
  C2. Each call of the function returned by \<open>when\<close> evaluates the predicate exactly
  once, without receiver or arguments. If the predicate returns a truthy value, the
  target is invoked once, with the receiver of the call and the bound arguments followed
  by the call's arguments, and its outcome is the outcome of the call. If the predicate
  returns a falsy value, the target is not invoked and the call returns \<^verbatim>\<open>undefined\<close>.
  (If the predicate throws, the call throws the same and the target is not invoked.)
\<close>

theorem when_call:
  "when (traced_check p) (traced t) boundArgs this callArgs h =
     (case p JUndefined [] (user h) of
        (Inl e, u1) \<Rightarrow> (Inl e, \<lparr>trace = trace h @ [Checked (Inl e)], user = u1\<rparr>)
      | (Inr c, u1) \<Rightarrow>
          if truthy c then
            (case t this (boundArgs @ callArgs) u1 of
               (r, u2) \<Rightarrow>
                 (r, \<lparr>trace = trace h @ [Checked (Inr c), Invoked this (boundArgs @ callArgs) r],
                      user = u2\<rparr>))
          else (Inr JUndefined, \<lparr>trace = trace h @ [Checked (Inr c)], user = u1\<rparr>))"
  by (simp add: when_def traced_def traced_check_def split: prod.splits sum.splits)

section \<open>Properties of \<^verbatim>\<open>arglock\<close>\<close>

lemma typeof_function: "typeof v = ''function'' \<longleftrightarrow> is_callable v"
  by (cases v) simp_all

text \<open>
  C5. The factory \<open>arglock\<close> itself throws exactly when it is given no argument or a
  first argument that is not callable. Given a callable first argument it returns a
  wrapped function, and calling that function invokes the target with the receiver of
  the call and the bound arguments followed by the call's arguments.
\<close>

theorem arglock_construction:
  "(isl (arglock impl args) \<longleftrightarrow>
      (case args of [] \<Rightarrow> True | v # boundArgs \<Rightarrow> \<not> is_callable v)) \<and>
   (\<forall>f boundArgs. \<exists>w. arglock impl (JFun f # boundArgs) = Inr w \<and>
      (\<forall>this callArgs s. w this callArgs s = impl f this (boundArgs @ callArgs) s))"
  by (cases args) (simp_all add: arglock_def typeof_function js_apply_def Let_def)

theorem arglock_construction_witness:
  "arglock (\<lambda>f. tick) [] = Inl (JsError ''first argument must be a function'') \<and>
   arglock (\<lambda>f. tick) [JNum 42] = Inl (JsError ''first argument must be a function'') \<and>
   \<not> isl (arglock (\<lambda>f. tick) [JFun 0, JStr ''a''])"
  using arglock_construction [of "\<lambda>f. tick" "[JFun 0, JStr ''a'']"]
  by (simp add: arglock_def)

section \<open>Properties of \<^verbatim>\<open>times\<close>\<close>

text \<open>The loop, started at \<open>i\<close> with \<open>results\<close>: it invokes the target on the
  receiver of the call and the bound arguments until \<open>i\<close> reaches \<open>n\<close> or an
  invocation throws.\<close>

lemma loop_traced:
  "multiplied_loop n fn args this i results h = (r, h') \<Longrightarrow> fn = traced t \<Longrightarrow>
     \<exists>vs. trace h' = trace h @ map (\<lambda>v. Invoked this args (Inr v)) vs
                 @ (case r of Inl e \<Rightarrow> [Invoked this args (Inl e)] | Inr a \<Rightarrow> [])
        \<and> (case r of Inr a \<Rightarrow> a = JArr (results @ vs) \<and> int (length vs) = max 0 (n - i)
            | Inl e \<Rightarrow> int (length vs) < n - i \<and> (\<exists>u. fst (t this args u) = Inl e))"
proof (induction n fn args this i results h arbitrary: r h' rule: multiplied_loop.induct)
  case (1 n fn args this i results s)
  note fn = \<open>fn = traced t\<close>
  show ?case
  proof (cases "i < n")
    case False
    with "1.prems"(1) have "r = Inr (JArr results)" "h' = s"
      by (simp_all add: multiplied_loop.simps [of n fn args this i])
    with False show ?thesis
      by (intro exI [of _ "[]"]) simp
  next
    case True
    obtain r1 s1 where t1: "fn this args s = (r1, s1)"
      by (cases "fn this args s")
    then have tr1: "trace s1 = trace s @ [Invoked this args r1]"
      and out1: "fst (t this args (user s)) = r1"
      by (auto simp: fn traced_def split: prod.splits)
    show ?thesis
    proof (cases r1)
      case (Inl e)
      with True t1 "1.prems"(1) have "r = Inl e" "h' = s1"
        by (simp_all add: multiplied_loop.simps [of n fn args this i])
      with tr1 out1 Inl True show ?thesis
        by (intro exI [of _ "[]"]) auto
    next
      case (Inr v)
      with True t1 "1.prems"(1)
      have rec: "multiplied_loop n fn args this (i + 1) (results @ [v]) s1 = (r, h')"
        by (simp add: multiplied_loop.simps [of n fn args this i])
      from "1.IH" [OF True t1 [symmetric] Inr rec fn]
      obtain vs where vs:
        "trace h' = trace s1 @ map (\<lambda>v. Invoked this args (Inr v)) vs
                 @ (case r of Inl e \<Rightarrow> [Invoked this args (Inl e)] | Inr a \<Rightarrow> [])"
        "(case r of Inr a \<Rightarrow> a = JArr ((results @ [v]) @ vs) \<and> int (length vs) = max 0 (n - (i + 1))
            | Inl e \<Rightarrow> int (length vs) < n - (i + 1) \<and> (\<exists>u. fst (t this args u) = Inl e))"
        by blast
      with tr1 Inr True show ?thesis
        by (intro exI [of _ "v # vs"]) (auto split: sum.splits)
    qed
  qed
qed

lemma times_traced:
  assumes "times_fn n (traced t) boundArgs this callArgs h = (r, h')"
  shows "\<exists>vs. trace h' = trace h @ map (\<lambda>v. Invoked this boundArgs (Inr v)) vs
                 @ (case r of Inl e \<Rightarrow> [Invoked this boundArgs (Inl e)] | Inr a \<Rightarrow> [])
        \<and> (case r of Inr a \<Rightarrow> a = JArr vs \<and> int (length vs) = max 0 n
            | Inl e \<Rightarrow> int (length vs) < n \<and> (\<exists>u. fst (t this boundArgs u) = Inl e))"
  using loop_traced [of n "traced t" boundArgs this 0 "[]" h r h' t] assms
  by (cases r) (simp_all add: times_fn_def multiplied_def)

lemma map_eq_split:
  assumes "map f vs @ rest = before @ x # after" and "\<forall>v. f v \<noteq> x"
  shows "\<exists>pre. before = map f vs @ pre \<and> rest = pre @ x # after"
  using assms
proof (induction vs arbitrary: before)
  case Nil
  then show ?case by simp
next
  case (Cons v vs)
  show ?case
  proof (cases before)
    case Nil
    with Cons.prems show ?thesis by auto
  next
    case (Cons b bs)
    with Cons.prems have "map f vs @ rest = bs @ x # after" "b = f v" by auto
    with Cons.IH [of bs] Cons.prems(2) Cons show ?thesis by auto
  qed
qed

text \<open>
  C6. For a count \<open>n \<ge> 0\<close>, a call of the function returned by \<open>times\<close> invokes the
  target \<open>n\<close> times in sequence, each time with the bound arguments only (the arguments
  of the call are not forwarded), and returns the array of the \<open>n\<close> values returned, in
  order. The one other course of a call is that an invocation of the target throws
  (C7): then fewer than \<open>n\<close> invocations returned before it.
\<close>

theorem times_call:
  assumes "0 \<le> n" and "times_fn n (traced t) boundArgs this callArgs h = (r, h')"
  shows "(\<exists>vs. r = Inr (JArr vs) \<and> int (length vs) = n \<and>
            trace h' = trace h @ map (\<lambda>v. Invoked this boundArgs (Inr v)) vs) \<or>
         (\<exists>e vs u. r = Inl e \<and> fst (t this boundArgs u) = Inl e \<and> int (length vs) < n \<and>
            trace h' = trace h @ map (\<lambda>v. Invoked this boundArgs (Inr v)) vs
                         @ [Invoked this boundArgs (Inl e)])"
proof -
  from times_traced [OF assms(2)] obtain vs where
    tr: "trace h' = trace h @ map (\<lambda>v. Invoked this boundArgs (Inr v)) vs
                 @ (case r of Inl e \<Rightarrow> [Invoked this boundArgs (Inl e)] | Inr a \<Rightarrow> [])"
    and res: "(case r of Inr a \<Rightarrow> a = JArr vs \<and> int (length vs) = max 0 n
            | Inl e \<Rightarrow> int (length vs) < n \<and> (\<exists>u. fst (t this boundArgs u) = Inl e))"
    by blast
  show ?thesis
  proof (cases r)
    case (Inl e)
    with tr res show ?thesis by auto
  next
    case (Inr a)
    with tr res assms(1) show ?thesis by auto
  qed
qed

theorem times_call_witness:
  "(0::int) \<le> 3 \<and>
   times_fn 3 (traced tick) [JStr ''x''] (JObj 7) [JNum 99] \<lparr>trace = [], user = 0\<rparr> =
     (Inr (JArr [JNum 0, JNum 1, JNum 2]),
      \<lparr>trace = [Invoked (JObj 7) [JStr ''x''] (Inr (JNum 0)),
                Invoked (JObj 7) [JStr ''x''] (Inr (JNum 1)),
                Invoked (JObj 7) [JStr ''x''] (Inr (JNum 2))], user = 3\<rparr>)"
proof -
  have ev: "times_fn 3 (traced tick) [JStr ''x''] (JObj 7) [JNum 99] \<lparr>trace = [], user = 0\<rparr> =
     (Inr (JArr [JNum 0, JNum 1, JNum 2]),
      \<lparr>trace = [Invoked (JObj 7) [JStr ''x''] (Inr (JNum 0)),
                Invoked (JObj 7) [JStr ''x''] (Inr (JNum 1)),
                Invoked (JObj 7) [JStr ''x''] (Inr (JNum 2))], user = 3\<rparr>)"
    by (simp add: times_fn_def multiplied_def multiplied_loop.simps traced_def tick_def)
  have "(0::int) \<le> 3" by simp
  from times_call [OF this ev] ev show ?thesis by simp
qed

text \<open>
  C7. If an invocation of the target made by a call of a \<open>times\<close>-wrapped function
  throws \<open>e\<close>, then the call throws \<open>e\<close> itself (so it returns no array, partial or
  not), no invocation follows the throwing one, and the throwing one is at most the
  \<open>n\<close>-th of the call.
\<close>

theorem times_throw:
  assumes "times_fn n (traced t) boundArgs this callArgs h = (r, h')"
    and "trace h' = trace h @ before @ Invoked th a (Inl e) # after"
  shows "r = Inl e \<and> after = [] \<and> int (length before) < n"
proof -
  from times_traced [OF assms(1)] obtain vs where
    tr: "trace h' = trace h @ map (\<lambda>v. Invoked this boundArgs (Inr v)) vs
                 @ (case r of Inl e \<Rightarrow> [Invoked this boundArgs (Inl e)] | Inr a \<Rightarrow> [])"
    and res: "(case r of Inr a \<Rightarrow> a = JArr vs \<and> int (length vs) = max 0 n
            | Inl e \<Rightarrow> int (length vs) < n \<and> (\<exists>u. fst (t this boundArgs u) = Inl e))"
    by blast
  from tr assms(2)
  have "map (\<lambda>v. Invoked this boundArgs (Inr v)) vs
          @ (case r of Inl e \<Rightarrow> [Invoked this boundArgs (Inl e)] | Inr a \<Rightarrow> [])
        = before @ Invoked th a (Inl e) # after"
    by simp
  from map_eq_split [OF this]
  obtain pre where pre: "before = map (\<lambda>v. Invoked this boundArgs (Inr v)) vs @ pre"
    "(case r of Inl e \<Rightarrow> [Invoked this boundArgs (Inl e)] | Inr a \<Rightarrow> [])
       = pre @ Invoked th a (Inl e) # after"
    by auto
  show ?thesis
  proof (cases r)
    case (Inr v)
    with pre show ?thesis by simp
  next
    case (Inl e')
    with pre(2) have "pre = []" "after = []" "e' = e"
      by (auto simp: Cons_eq_append_conv)
    with pre(1) res Inl show ?thesis by simp
  qed
qed

theorem times_throw_witness:
  "times_fn 3 (traced fussy) [JStr ''x''] (JObj 7) [JNum 99] \<lparr>trace = [], user = 0\<rparr> =
     (Inl (Thrown (JStr ''boom'')),
      \<lparr>trace = [Invoked (JObj 7) [JStr ''x''] (Inr (JNum 0)),
                Invoked (JObj 7) [JStr ''x''] (Inl (Thrown (JStr ''boom'')))], user = 2\<rparr>) \<and>
   int (length [Invoked (JObj 7) [JStr ''x''] (Inr (JNum 0)) :: nat event]) < 3"
proof -
  have ev: "times_fn 3 (traced fussy) [JStr ''x''] (JObj 7) [JNum 99] \<lparr>trace = [], user = 0\<rparr> =
     (Inl (Thrown (JStr ''boom'')),
      \<lparr>trace = [Invoked (JObj 7) [JStr ''x''] (Inr (JNum 0)),
                Invoked (JObj 7) [JStr ''x''] (Inl (Thrown (JStr ''boom'')))], user = 2\<rparr>)"
    by (simp add: times_fn_def multiplied_def multiplied_loop.simps traced_def fussy_def)
  from times_throw [OF ev, of "[Invoked (JObj 7) [JStr ''x''] (Inr (JNum 0))]" "JObj 7"
      "[JStr ''x'']" "Thrown (JStr ''boom'')" "[]"] ev
  show ?thesis by simp
qed

text \<open>
  C9. Every invocation of the target made by a call of a \<open>times\<close>-wrapped function has
  the receiver of that call as its receiver (and the bound arguments as its arguments);
  for a positive count there is at least one invocation.
\<close>

theorem times_receiver:
  assumes "times_fn n (traced t) boundArgs this callArgs h = (r, h')"
  shows "\<exists>outs. trace h' = trace h @ map (Invoked this boundArgs) outs \<and>
           (0 < n \<longrightarrow> outs \<noteq> [])"
proof -
  from times_traced [OF assms] obtain vs where
    tr: "trace h' = trace h @ map (\<lambda>v. Invoked this boundArgs (Inr v)) vs
                 @ (case r of Inl e \<Rightarrow> [Invoked this boundArgs (Inl e)] | Inr a \<Rightarrow> [])"
    and res: "(case r of Inr a \<Rightarrow> a = JArr vs \<and> int (length vs) = max 0 n
            | Inl e \<Rightarrow> int (length vs) < n \<and> (\<exists>u. fst (t this boundArgs u) = Inl e))"
    by blast
  show ?thesis
  proof (cases r)
    case (Inl e)
    with tr show ?thesis
      by (intro exI [of _ "map Inr vs @ [Inl e]"]) simp
  next
    case (Inr a)
    with tr res show ?thesis
      by (intro exI [of _ "map Inr vs"]) auto
  qed
qed

theorem times_receiver_witness:
  "times_fn 2 (traced tick) [JStr ''x''] (JObj 7) [JNum 99] \<lparr>trace = [], user = 0\<rparr> =
     (Inr (JArr [JNum 0, JNum 1]),
      \<lparr>trace = map (Invoked (JObj 7) [JStr ''x'']) [Inr (JNum 0), Inr (JNum 1)], user = 2\<rparr>) \<and>
   (0::int) < 2"
proof -
  have ev: "times_fn 2 (traced tick) [JStr ''x''] (JObj 7) [JNum 99] \<lparr>trace = [], user = 0\<rparr> =
     (Inr (JArr [JNum 0, JNum 1]),
      \<lparr>trace = map (Invoked (JObj 7) [JStr ''x'']) [Inr (JNum 0), Inr (JNum 1)], user = 2\<rparr>)"
    by (simp add: times_fn_def multiplied_def multiplied_loop.simps traced_def tick_def)
  from times_receiver [OF ev] ev show ?thesis by simp
qed

section \<open>Properties of \<^verbatim>\<open>debounce\<close> and \<^verbatim>\<open>counts\<close>\<close>

lemma fired_on_Nil: "fired_on P k b [] rs = []"
  by (simp add: fired_on_def)

lemma fired_on_Cons:
  "fired_on P k b ((this, a) # cs) (r # rs) =
     (if P k then [Invoked this (b @ a) r] else []) @ fired_on P (Suc k) b cs rs"
  by (simp add: fired_on_def upt_conv_Cons del: upt_Suc)

lemma length_fired_on:
  "length rs = length cs \<Longrightarrow>
     length (fired_on P k b cs rs) = length (filter P [k..<k + length cs])"
proof (induction cs arbitrary: k rs)
  case Nil
  then show ?case by (simp add: fired_on_def)
next
  case (Cons c cs)
  then obtain r rs' where rs: "rs = r # rs'" by (cases rs) auto
  obtain this a where c: "c = (this, a)" by (cases c)
  from Cons.prems rs have "length rs' = length cs" by simp
  from Cons.IH [OF this, of "Suc k"] show ?case
    by (simp add: rs c fired_on_Cons upt_conv_Cons del: upt_Suc)
qed

lemma count_multiples: "0 < n \<Longrightarrow> length (filter (\<lambda>i. n dvd i) [1..<Suc M]) = M div n"
  by (induction M) (auto simp: div_Suc mod_eq_0_iff_dvd)

lemma js_rem_pos: "0 < a \<Longrightarrow> 0 < b \<Longrightarrow> js_rem a b = Some 0 \<longleftrightarrow> b dvd a"
  by (auto simp: js_rem_def mod_eq_0_iff_dvd)

text \<open>One call of the function returned by \<open>debounce\<close>, from any state.\<close>

lemma debounce_call:
  "when (debouncer every) (enclosed (traced t)) boundArgs this callArgs \<sigma> =
     (if js_rem (count \<sigma> + 1) every = Some 0 then
        (case t this (boundArgs @ callArgs) (user (outer \<sigma>)) of
           (r, u') \<Rightarrow>
             (r, \<lparr>count = count \<sigma> + 1,
                  outer = \<lparr>trace = trace (outer \<sigma>) @ [Invoked this (boundArgs @ callArgs) r],
                            user = u'\<rparr>\<rparr>))
      else (Inr JUndefined, \<lparr>count = count \<sigma> + 1, outer = outer \<sigma>\<rparr>))"
  by (simp add: when_def debouncer_def enclosed_def traced_def Let_def split: prod.splits)

lemma debounce_run:
  assumes "0 < N"
  shows "count \<sigma> = int k \<Longrightarrow>
    run (when (debouncer N) (enclosed (traced t)) boundArgs) cs \<sigma> = (rs, \<sigma>') \<Longrightarrow>
    trace (outer \<sigma>') = trace (outer \<sigma>) @ fired_on (\<lambda>i. N dvd int i) (Suc k) boundArgs cs rs \<and>
    count \<sigma>' = int (k + length cs) \<and> length rs = length cs"
proof (induction cs arbitrary: \<sigma> k rs \<sigma>')
  case Nil
  then show ?case by (auto simp: fired_on_Nil)
next
  case (Cons c cs)
  let ?w = "when (debouncer N) (enclosed (traced t)) boundArgs"
  obtain this a where c: "c = (this, a)" by (cases c)
  obtain r \<sigma>1 where step: "?w this a \<sigma> = (r, \<sigma>1)"
    by (cases "?w this a \<sigma>")
  obtain rs1 \<sigma>2 where rest: "run ?w cs \<sigma>1 = (rs1, \<sigma>2)"
    by (cases "run ?w cs \<sigma>1")
  from Cons.prems(2) c step rest have res: "rs = r # rs1" "\<sigma>' = \<sigma>2"
    by simp_all
  have "js_rem (int k + 1) N = Some 0 \<longleftrightarrow> N dvd int (Suc k)"
    using js_rem_pos [of "int k + 1" N] assms by (simp add: add.commute)
  with step Cons.prems(1)
  have s1: "count \<sigma>1 = int (Suc k)"
    "trace (outer \<sigma>1) =
       trace (outer \<sigma>) @ (if N dvd int (Suc k) then [Invoked this (boundArgs @ a) r] else [])"
    by (auto simp: debounce_call split: if_splits prod.splits)
  from Cons.IH [OF s1(1) rest] s1(2) res c show ?case
    by (simp add: fired_on_Cons)
qed

text \<open>
  C3. For a positive integer \<open>N\<close>, calling the function returned by
  \<open>debounce N t boundArgs\<close> on any \<open>M\<close> calls \<open>cs\<close> invokes the target on exactly the
  calls number \<open>N, 2N, 3N, \<dots>\<close> (counted from 1), with the receiver of that call and
  \<open>boundArgs\<close> followed by its arguments; these are \<open>M div N\<close> invocations, and each
  such call has the outcome of its invocation.
\<close>

theorem debounce_fires:
  assumes "0 < N" and "debounce N (traced t) boundArgs h = (w, \<sigma>0)"
    and "run w cs \<sigma>0 = (rs, \<sigma>')"
  shows "trace (outer \<sigma>') = trace h @ fired_on (\<lambda>i. N dvd int i) 1 boundArgs cs rs \<and>
         length (fired_on (\<lambda>i. N dvd int i) 1 boundArgs cs rs) = length cs div nat N"
proof -
  from assms(2) have w: "w = when (debouncer N) (enclosed (traced t)) boundArgs"
    and s0: "\<sigma>0 = \<lparr>count = 0, outer = h\<rparr>"
    by (simp_all add: debounce_def)
  from s0 have "count \<sigma>0 = int 0" by simp
  from debounce_run [OF assms(1) this, of t boundArgs cs rs \<sigma>'] assms(3) w s0
  have tr: "trace (outer \<sigma>') = trace h @ fired_on (\<lambda>i. N dvd int i) 1 boundArgs cs rs"
    and len: "length rs = length cs"
    by simp_all
  have "(\<lambda>i. N dvd int i) = (\<lambda>i. nat N dvd i)"
    using assms(1) by (metis int_dvd_int_iff int_nat_eq less_le)
  with length_fired_on [OF len, of "\<lambda>i. N dvd int i" 1 boundArgs]
    count_multiples [of "nat N" "length cs"] assms(1)
  have "length (fired_on (\<lambda>i. N dvd int i) 1 boundArgs cs rs) = length cs div nat N"
    by simp
  with tr show ?thesis by simp
qed

theorem debounce_fires_witness:
  "(0::int) < 2 \<and>
   debounce 2 (traced tick) [JStr ''Log!''] \<lparr>trace = [], user = 0\<rparr> =
     (when (debouncer 2) (enclosed (traced tick)) [JStr ''Log!''],
      \<lparr>count = 0, outer = \<lparr>trace = [], user = 0\<rparr>\<rparr>) \<and>
   run (when (debouncer 2) (enclosed (traced tick)) [JStr ''Log!''])
       [(JObj 1, [JStr ''a'']), (JObj 2, [JStr ''b'']), (JObj 3, [JStr ''c'']),
        (JObj 4, [JStr ''d'']), (JObj 5, [JStr ''e''])]
       \<lparr>count = 0, outer = \<lparr>trace = [], user = 0\<rparr>\<rparr> =
     ([Inr JUndefined, Inr (JNum 0), Inr JUndefined, Inr (JNum 1), Inr JUndefined],
      \<lparr>count = 5,
       outer = \<lparr>trace = [Invoked (JObj 2) [JStr ''Log!'', JStr ''b''] (Inr (JNum 0)),
                         Invoked (JObj 4) [JStr ''Log!'', JStr ''d''] (Inr (JNum 1))],
                user = 2\<rparr>\<rparr>)"
proof -
  have c: "debounce 2 (traced tick) [JStr ''Log!''] \<lparr>trace = [], user = 0\<rparr> =
     (when (debouncer 2) (enclosed (traced tick)) [JStr ''Log!''],
      \<lparr>count = 0, outer = \<lparr>trace = [], user = 0\<rparr>\<rparr>)"
    by (simp add: debounce_def)
  have r: "run (when (debouncer 2) (enclosed (traced tick)) [JStr ''Log!''])
       [(JObj 1, [JStr ''a'']), (JObj 2, [JStr ''b'']), (JObj 3, [JStr ''c'']),
        (JObj 4, [JStr ''d'']), (JObj 5, [JStr ''e''])]
       \<lparr>count = 0, outer = \<lparr>trace = [], user = 0\<rparr>\<rparr> =
     ([Inr JUndefined, Inr (JNum 0), Inr JUndefined, Inr (JNum 1), Inr JUndefined],
      \<lparr>count = 5,
       outer = \<lparr>trace = [Invoked (JObj 2) [JStr ''Log!'', JStr ''b''] (Inr (JNum 0)),
                         Invoked (JObj 4) [JStr ''Log!'', JStr ''d''] (Inr (JNum 1))],
                user = 2\<rparr>\<rparr>)"
    by (simp add: debounce_call tick_def js_rem_def)
  have "(0::int) < 2" by simp
  from debounce_fires [OF this c r] c r show ?thesis by simp
qed

text \<open>
  C8. The counter of a \<open>debounce\<close> instance starts at 0. Every call of the wrapped
  function, from any state, whatever the period and whether or not the target is
  invoked (or throws), leaves the counter exactly one higher; so after any \<open>M\<close> calls it
  is \<open>M\<close> higher: it only grows and is never reset.
\<close>

theorem debounce_counter:
  "count (snd (debounce every fn boundArgs s)) = 0 \<and>
   (\<forall>this callArgs \<sigma>.
      count (snd (fst (debounce every fn boundArgs s) this callArgs \<sigma>)) = count \<sigma> + 1) \<and>
   (\<forall>cs \<sigma>.
      count (snd (run (fst (debounce every fn boundArgs s)) cs \<sigma>)) = count \<sigma> + int (length cs))"
proof -
  let ?w = "when (debouncer every) (enclosed fn) boundArgs"
  have step: "count (snd (?w this callArgs \<sigma>)) = count \<sigma> + 1" for this callArgs \<sigma>
    by (simp add: when_def debouncer_def enclosed_def Let_def split: prod.splits)
  have runs: "count (snd (run ?w cs \<sigma>)) = count \<sigma> + int (length cs)" for cs \<sigma>
  proof (induction cs arbitrary: \<sigma>)
    case Nil
    show ?case by simp
  next
    case (Cons c cs)
    obtain this a where c: "c = (this, a)" by (cases c)
    from Cons.IH [of "snd (?w this a \<sigma>)"] step [of this a \<sigma>] show ?case
      by (auto simp: c split: prod.splits)
  qed
  from step runs show ?thesis by (simp add: debounce_def)
qed

text \<open>
  C10. With period 0 the remainder \<^verbatim>\<open>count % 0\<close> is \<^verbatim>\<open>NaN\<close>, never \<^verbatim>\<open>0\<close>: whatever
  calls are made to the function returned by \<open>debounce 0 t boundArgs\<close>, the target is
  never invoked (the caller's state, trace included, is what it was at construction),
  every call returns \<^verbatim>\<open>undefined\<close>, and the counter has counted the calls.
\<close>

theorem debounce_zero:
  "js_rem c 0 = None \<and>
   snd (run (fst (debounce 0 (traced t) boundArgs h)) cs (snd (debounce 0 (traced t) boundArgs h))) =
     \<lparr>count = int (length cs), outer = h\<rparr> \<and>
   fst (run (fst (debounce 0 (traced t) boundArgs h)) cs (snd (debounce 0 (traced t) boundArgs h))) =
     replicate (length cs) (Inr JUndefined)"
proof -
  let ?w = "when (debouncer 0) (enclosed (traced t)) boundArgs"
  have runs: "run ?w cs \<lparr>count = k, outer = h\<rparr> =
      (replicate (length cs) (Inr JUndefined), \<lparr>count = k + int (length cs), outer = h\<rparr>)" for k
  proof (induction cs arbitrary: k)
    case Nil
    show ?case by simp
  next
    case (Cons c cs)
    obtain this a where c: "c = (this, a)" by (cases c)
    from Cons.IH [of "k + 1"] show ?case
      by (simp add: c debounce_call js_rem_def)
  qed
  from runs [of 0] show ?thesis by (simp add: debounce_def js_rem_def)
qed

text \<open>One call of the function returned by \<open>counts\<close>, from any state.\<close>

lemma counts_call:
  "when (counter K) (enclosed (traced t)) boundArgs this callArgs \<sigma> =
     (if count \<sigma> = K then
        (case t this (boundArgs @ callArgs) (user (outer \<sigma>)) of
           (r, u') \<Rightarrow>
             (r, \<lparr>count = count \<sigma>,
                  outer = \<lparr>trace = trace (outer \<sigma>) @ [Invoked this (boundArgs @ callArgs) r],
                            user = u'\<rparr>\<rparr>))
      else (Inr JUndefined, \<lparr>count = count \<sigma> + 1, outer = outer \<sigma>\<rparr>))"
  by (simp add: when_def counter_def enclosed_def traced_def Let_def split: prod.splits)

lemma counts_run:
  assumes "0 \<le> K"
  shows "count \<sigma> = min (int k) K \<Longrightarrow>
    run (when (counter K) (enclosed (traced t)) boundArgs) cs \<sigma> = (rs, \<sigma>') \<Longrightarrow>
    trace (outer \<sigma>') = trace (outer \<sigma>) @ fired_on (\<lambda>i. K < int i) (Suc k) boundArgs cs rs \<and>
    count \<sigma>' = min (int (k + length cs)) K \<and> length rs = length cs"
proof (induction cs arbitrary: \<sigma> k rs \<sigma>')
  case Nil
  then show ?case by (auto simp: fired_on_Nil)
next
  case (Cons c cs)
  let ?w = "when (counter K) (enclosed (traced t)) boundArgs"
  obtain this a where c: "c = (this, a)" by (cases c)
  obtain r \<sigma>1 where step: "?w this a \<sigma> = (r, \<sigma>1)"
    by (cases "?w this a \<sigma>")
  obtain rs1 \<sigma>2 where rest: "run ?w cs \<sigma>1 = (rs1, \<sigma>2)"
    by (cases "run ?w cs \<sigma>1")
  from Cons.prems(2) c step rest have res: "rs = r # rs1" "\<sigma>' = \<sigma>2"
    by simp_all
  from step Cons.prems(1)
  have s1: "count \<sigma>1 = min (int (Suc k)) K"
    "trace (outer \<sigma>1) =
       trace (outer \<sigma>) @ (if K < int (Suc k) then [Invoked this (boundArgs @ a) r] else [])"
    by (auto simp: counts_call split: if_splits prod.splits)
  from Cons.IH [OF s1(1) rest] s1(2) res c show ?case
    by (simp add: fired_on_Cons)
qed

text \<open>
  C1. What the code does: for a limit \<open>K \<ge> 0\<close>, the function returned by
  \<open>counts K t boundArgs\<close> invokes the target on exactly the calls whose number is
  greater than \<open>K\<close>: on none of the calls \<open>1..K\<close>, and on every call after the \<open>K\<close>-th.
  \<open>counter\<close> answers \<^verbatim>\<open>true\<close> once the limit is reached and \<open>when\<close> invokes the target
  on \<^verbatim>\<open>true\<close>. The comment above \<^verbatim>\<open>counts\<close> in the source says the opposite (a
  maximum of \<open>times\<close> executions, its example logging on the first two calls and silent
  on the third); the example below is that one.
\<close>

theorem counts_fires_after_limit:
  assumes "0 \<le> K" and "counts K (traced t) boundArgs h = (w, \<sigma>0)"
    and "run w cs \<sigma>0 = (rs, \<sigma>')"
  shows "trace (outer \<sigma>') = trace h @ fired_on (\<lambda>i. K < int i) 1 boundArgs cs rs"
proof -
  from assms(2) have w: "w = when (counter K) (enclosed (traced t)) boundArgs"
    and s0: "\<sigma>0 = \<lparr>count = 0, outer = h\<rparr>"
    by (simp_all add: counts_def)
  from assms(1) s0 have "count \<sigma>0 = min (int 0) K" by simp
  from counts_run [OF assms(1) this, of t boundArgs cs rs \<sigma>'] assms(3) w s0
  show ?thesis by simp
qed

theorem counts_doc_example:
  "(0::int) \<le> 2 \<and>
   counts 2 (traced tick) [JStr ''Hello''] \<lparr>trace = [], user = 0\<rparr> =
     (when (counter 2) (enclosed (traced tick)) [JStr ''Hello''],
      \<lparr>count = 0, outer = \<lparr>trace = [], user = 0\<rparr>\<rparr>) \<and>
   run (when (counter 2) (enclosed (traced tick)) [JStr ''Hello''])
       [(JUndefined, [JStr ''World!'']), (JUndefined, [JStr ''Everyone'']),
        (JUndefined, [JStr ''World!''])]
       \<lparr>count = 0, outer = \<lparr>trace = [], user = 0\<rparr>\<rparr> =
     ([Inr JUndefined, Inr JUndefined, Inr (JNum 0)],
      \<lparr>count = 2,
       outer = \<lparr>trace = [Invoked JUndefined [JStr ''Hello'', JStr ''World!''] (Inr (JNum 0))],
                user = 1\<rparr>\<rparr>)"
proof -
  have c: "counts 2 (traced tick) [JStr ''Hello''] \<lparr>trace = [], user = 0\<rparr> =
     (when (counter 2) (enclosed (traced tick)) [JStr ''Hello''],
      \<lparr>count = 0, outer = \<lparr>trace = [], user = 0\<rparr>\<rparr>)"
    by (simp add: counts_def)
  have r: "run (when (counter 2) (enclosed (traced tick)) [JStr ''Hello''])
       [(JUndefined, [JStr ''World!'']), (JUndefined, [JStr ''Everyone'']),
        (JUndefined, [JStr ''World!''])]
       \<lparr>count = 0, outer = \<lparr>trace = [], user = 0\<rparr>\<rparr> =
     ([Inr JUndefined, Inr JUndefined, Inr (JNum 0)],
      \<lparr>count = 2,
       outer = \<lparr>trace = [Invoked JUndefined [JStr ''Hello'', JStr ''World!''] (Inr (JNum 0))],
                user = 1\<rparr>\<rparr>)"
    by (simp add: counts_call tick_def)
  have "(0::int) \<le> 2" by simp
  from counts_fires_after_limit [OF this c r] c r show ?thesis by simp
qed

section \<open>Properties of \<^verbatim>\<open>rateLimit\<close>\<close>

lemma fire_fields:
  "clear (fire receiver i \<sigma>) = clear \<sigma>"
  "next_id (fire receiver i \<sigma>) = next_id \<sigma>"
  "timeouts (fire receiver i \<sigma>) = (timeouts \<sigma>)(i := None)"
  "fired (fire receiver i \<sigma>) = fired \<sigma> @ (if timeouts \<sigma> i = None then [] else [i])"
  by (auto simp: fire_def Let_def split: option.splits prod.splits)

lemma clearTimeout_fields:
  "clear (clearTimeout i \<sigma>) = clear \<sigma>"
  "next_id (clearTimeout i \<sigma>) = next_id \<sigma>"
  "timeouts (clearTimeout i \<sigma>) = (timeouts \<sigma>)(i := None)"
  "fired (clearTimeout i \<sigma>) = fired \<sigma>"
  by (simp_all add: clearTimeout_def)

lemma limited_fields:
  "fst (limited wait fn this arguments \<sigma>) = next_id \<sigma>"
  "clear (snd (limited wait fn this arguments \<sigma>)) = Some (next_id \<sigma>)"
  "next_id (snd (limited wait fn this arguments \<sigma>)) = Suc (next_id \<sigma>)"
  "timeouts (snd (limited wait fn this arguments \<sigma>)) =
     (case clear \<sigma> of None \<Rightarrow> timeouts \<sigma> | Some j \<Rightarrow> (timeouts \<sigma>)(j := None))
       (next_id \<sigma> \<mapsto> \<lparr>target = fn, captured = arguments, delay = wait\<rparr>)"
  "fired (snd (limited wait fn this arguments \<sigma>)) = fired \<sigma>"
  by (simp_all add: limited_def setTimeout_def clearTimeout_def Let_def split: option.splits)

lemma pending_inv_step: "pending_inv \<sigma> \<Longrightarrow> pending_inv (step wait fn receiver a \<sigma>)"
proof (cases a)
  case (Call this arguments)
  assume "pending_inv \<sigma>"
  with Call show ?thesis
    by (cases "clear \<sigma>") (auto simp: pending_inv_def limited_fields split: if_splits)
next
  case (Cancel i)
  assume "pending_inv \<sigma>"
  with Cancel show ?thesis
    by (auto simp: pending_inv_def clearTimeout_fields split: if_splits)
next
  case (Fire i)
  assume "pending_inv \<sigma>"
  with Fire show ?thesis
    by (auto simp: pending_inv_def fire_fields split: if_splits)
qed

lemma pending_inv_steps: "pending_inv \<sigma> \<Longrightarrow> pending_inv (steps wait fn receiver as \<sigma>)"
  by (induction as arbitrary: \<sigma>) (simp_all add: pending_inv_step)

lemma pending_inv_init: "pending_inv (snd (rateLimit wait fn s))"
  by (simp add: pending_inv_def rateLimit_def)

lemma stale_step:
  assumes "stale i \<sigma>"
  shows "stale i (step wait fn receiver a \<sigma>) \<and>
         (\<exists>new. fired (step wait fn receiver a \<sigma>) = fired \<sigma> @ new \<and> i \<notin> set new)"
proof (cases a)
  case (Call this arguments)
  with assms show ?thesis
    by (cases "clear \<sigma>") (auto simp: stale_def limited_fields)
next
  case (Cancel j)
  with assms show ?thesis
    by (auto simp: stale_def clearTimeout_fields)
next
  case (Fire j)
  with assms show ?thesis
    by (auto simp: stale_def fire_fields)
qed

lemma stale_steps:
  "stale i \<sigma> \<Longrightarrow>
     \<exists>new. fired (steps wait fn receiver as \<sigma>) = fired \<sigma> @ new \<and> i \<notin> set new"
proof (induction as arbitrary: \<sigma>)
  case Nil
  then show ?case by simp
next
  case (Cons a as)
  from stale_step [OF Cons.prems, of wait fn receiver a]
  obtain new1 where s1: "stale i (step wait fn receiver a \<sigma>)"
    and f1: "fired (step wait fn receiver a \<sigma>) = fired \<sigma> @ new1" "i \<notin> set new1"
    by blast
  from Cons.IH [OF s1] obtain new2 where
    f2: "fired (steps wait fn receiver as (step wait fn receiver a \<sigma>)) =
           fired (step wait fn receiver a \<sigma>) @ new2" "i \<notin> set new2"
    by blast
  from f1 f2 show ?case
    by (intro exI [of _ "new1 @ new2"]) simp
qed

text \<open>
  C4. Let \<open>\<sigma>\<close> be the state of a \<open>rateLimit\<close> instance after any sequence of calls of
  the wrapped function, calls of cancellation handles and firings. In \<open>\<sigma>\<close> at most one
  invocation is scheduled. A call of the wrapped function in \<open>\<sigma>\<close> leaves exactly its own
  invocation scheduled, and an invocation that was scheduled in \<open>\<sigma>\<close> never fires after
  that call, whatever sequence of calls, handle calls and firings follows.
\<close>

theorem rateLimit_one_pending:
  assumes reach: "\<sigma> = steps wait fn receiver acts (snd (rateLimit wait fn s))"
    and call: "limited wait fn this arguments \<sigma> = (timeoutId, \<sigma>1)"
    and later: "\<sigma>2 = steps wait fn receiver acts' \<sigma>1"
  shows "finite (dom (timeouts \<sigma>)) \<and> card (dom (timeouts \<sigma>)) \<le> 1 \<and>
         dom (timeouts \<sigma>1) = {timeoutId} \<and>
         (\<forall>i. i \<in> dom (timeouts \<sigma>) \<longrightarrow> i \<notin> set (drop (length (fired \<sigma>1)) (fired \<sigma>2)))"
proof -
  from reach have inv: "pending_inv \<sigma>"
    by (simp add: pending_inv_steps pending_inv_init)
  then have sub: "dom (timeouts \<sigma>) \<subseteq> set_option (clear \<sigma>)"
    by (auto simp: pending_inv_def)
  have fin: "finite (set_option (clear \<sigma>))" "card (set_option (clear \<sigma>)) \<le> 1"
    by (cases "clear \<sigma>"; simp)+
  have c1: "finite (dom (timeouts \<sigma>))" "card (dom (timeouts \<sigma>)) \<le> 1"
    using finite_subset [OF sub fin(1)] le_trans [OF card_mono [OF fin(1) sub] fin(2)]
    by simp_all
  from call have id: "timeoutId = next_id \<sigma>"
    and s1: "\<sigma>1 = snd (limited wait fn this arguments \<sigma>)"
    using limited_fields(1) [of wait fn this arguments \<sigma>] by simp_all
  have d1: "dom (timeouts \<sigma>1) = {timeoutId}"
  proof (cases "clear \<sigma>")
    case None
    with sub have "dom (timeouts \<sigma>) = {}" by simp
    with None show ?thesis by (simp add: s1 id limited_fields)
  next
    case (Some j)
    with sub have "dom (timeouts \<sigma>) - {j} = {}" by auto
    with Some show ?thesis by (auto simp: s1 id limited_fields)
  qed
  have "i \<notin> set (drop (length (fired \<sigma>1)) (fired \<sigma>2))" if "i \<in> dom (timeouts \<sigma>)" for i
  proof -
    from that inv have "i < next_id \<sigma>"
      by (auto simp: pending_inv_def)
    with d1 id have "stale i \<sigma>1"
      by (auto simp: stale_def s1 limited_fields)
    from stale_steps [OF this, of wait fn receiver acts'] later show ?thesis
      by auto
  qed
  with c1 d1 show ?thesis by blast
qed

theorem rateLimit_one_pending_witness:
  "dom (timeouts (steps 100 (traced tick) JUndefined [Call JUndefined [JStr ''a'']]
          (snd (rateLimit 100 (traced tick) \<lparr>trace = [], user = 0\<rparr>)))) = {0} \<and>
   fst (limited 100 (traced tick) JUndefined [JStr ''b'']
          (steps 100 (traced tick) JUndefined [Call JUndefined [JStr ''a'']]
             (snd (rateLimit 100 (traced tick) \<lparr>trace = [], user = 0\<rparr>)))) = 1 \<and>
   fired (steps 100 (traced tick) JUndefined [Fire 0, Fire 1]
            (snd (limited 100 (traced tick) JUndefined [JStr ''b'']
               (steps 100 (traced tick) JUndefined [Call JUndefined [JStr ''a'']]
                  (snd (rateLimit 100 (traced tick) \<lparr>trace = [], user = 0\<rparr>)))))) = [1] \<and>
   trace (world (steps 100 (traced tick) JUndefined [Fire 0, Fire 1]
            (snd (limited 100 (traced tick) JUndefined [JStr ''b'']
               (steps 100 (traced tick) JUndefined [Call JUndefined [JStr ''a'']]
                  (snd (rateLimit 100 (traced tick) \<lparr>trace = [], user = 0\<rparr>))))))) =
     [Invoked JUndefined [JStr ''b''] (Inr (JNum 0))]"
  using rateLimit_one_pending [OF refl prod.collapse [symmetric] refl,
      of 100 "traced tick" JUndefined "[Call JUndefined [JStr ''a'']]"
         "\<lparr>trace = [], user = 0\<rparr>" JUndefined "[JStr ''b'']" "[Fire 0, Fire 1]"]
  by (simp add: rateLimit_def limited_def setTimeout_def clearTimeout_def fire_def
      traced_def tick_def Let_def)

end
